theory Spec2Isabelle
  imports Main "HOL-Library.Sublist"
begin

section \<open>The brace scanner of check\_braces.py\<close>

text \<open>
  The program reads a whole text file and makes one pass over its characters with a
  stack of offsets of opening braces. Text is a \<^typ>\<open>string\<close>, one list element per
  character of the decoded file; the code tests a character only against the opening
  brace, the closing brace and the newline, all three ASCII. Offsets and line numbers
  are natural numbers. Standard output is the list of the arguments of the
  \<^verbatim>\<open>print\<close> calls, oldest first.
\<close>

subsection \<open>Python values and exceptions\<close>

text \<open>
  The exceptions the program can meet: those of opening and reading the file, that of
  writing a line to standard output, and that of \<^verbatim>\<open>pop\<close> on an empty list.
\<close>

datatype py_error = OSError | ValueError | UnicodeDecodeError | UnicodeEncodeError | IndexError

text \<open>
  A computation either raises, and then carries the exception with the lines printed
  before it, or returns a value.
\<close>

type_synonym 'a result = "(py_error \<times> string list) + 'a"

definition digit :: "nat \<Rightarrow> char" where
  "digit d = ''0123456789'' ! d"

text \<open>The decimal text of a non-negative integer, as an f-string formats it.\<close>

function str_nat :: "nat \<Rightarrow> string" where
  "str_nat n = (if n < 10 then [digit n] else str_nat (n div 10) @ [digit (n mod 10)])"
  by pat_completeness auto
termination
  by (relation "measure id") auto

declare str_nat.simps [simp del]

text \<open>The slice \<^verbatim>\<open>xs[a:b]\<close> for non-negative bounds; both bounds are clamped to the length.\<close>

definition slice :: "'a list \<Rightarrow> nat \<Rightarrow> nat \<Rightarrow> 'a list" where
  "slice xs a b = drop a (take b xs)"

text \<open>\<^verbatim>\<open>list.pop()\<close> removes the last element and raises on an empty list.\<close>

fun pop :: "nat list \<Rightarrow> py_error + nat list" where
  "pop [] = Inl IndexError"
| "pop (x # xs) = Inr (butlast (x # xs))"

text \<open>
  What a \<^verbatim>\<open>print\<close> call that standard output accepts does to the lines printed. The
  definitions of the scan and of the report below are those of a run whose standard
  output accepts every line; the run on a standard output that can refuse a line follows
  them.
\<close>

definition print :: "string \<Rightarrow> string list \<Rightarrow> string list" where
  "print line out = out @ [line]"

text \<open>A \<^verbatim>\<open>for\<close> loop over a list; an exception in the body ends it.\<close>

fun for_each :: "('s \<Rightarrow> 'a \<Rightarrow> 's result) \<Rightarrow> 's \<Rightarrow> 'a list \<Rightarrow> 's result" where
  "for_each body s [] = Inr s"
| "for_each body s (x # xs) =
     (case body s x of Inl e \<Rightarrow> Inl e | Inr s' \<Rightarrow> for_each body s' xs)"

subsection \<open>The scan\<close>

record scan_state =
  stack :: "nat list"
  printed :: "string list"

definition scan_init :: scan_state where
  "scan_init = \<lparr>stack = [], printed = []\<rparr>"

text \<open>The body of the first loop, for the pair \<open>(i, ch)\<close> that \<^verbatim>\<open>enumerate\<close> yields.\<close>

definition scan_step :: "scan_state \<Rightarrow> nat \<times> char \<Rightarrow> scan_state result" where
  "scan_step s p =
     (case p of (i, ch) \<Rightarrow>
        if ch = CHR ''{'' then Inr (s\<lparr>stack := stack s @ [i]\<rparr>)
        else if ch = CHR ''}'' then
          (if stack s = [] then
             Inr (s\<lparr>printed := print (''Extra closing brace at index '' @ str_nat i) (printed s)\<rparr>)
           else
             (case pop (stack s) of
                Inl e \<Rightarrow> Inl (e, printed s)
              | Inr st \<Rightarrow> Inr (s\<lparr>stack := st\<rparr>)))
        else Inr s)"

text \<open>The state after the first \<open>n\<close> iterations of the first loop, and after all of them.\<close>

definition scan_upto :: "string \<Rightarrow> nat \<Rightarrow> scan_state result" where
  "scan_upto content n = for_each scan_step scan_init (take n (enumerate 0 content))"

definition scan :: "string \<Rightarrow> scan_state result" where
  "scan content = for_each scan_step scan_init (enumerate 0 content)"

subsection \<open>The report\<close>

definition line_no :: "string \<Rightarrow> nat \<Rightarrow> nat" where
  "line_no content pos = count_list (slice content 0 pos) CHR ''\<newline>'' + 1"

text \<open>The body of the second loop: three lines for one offset left on the stack.\<close>

definition report_step :: "string \<Rightarrow> string list \<Rightarrow> nat \<Rightarrow> string list result" where
  "report_step content out pos =
     (let out1 = print (''Unclosed opening brace at index '' @ str_nat pos) out;
          out2 = print (''  Line: '' @ str_nat (line_no content pos)) out1;
          out3 = print (''  Context: '' @ slice content pos (pos + 50) @ ''...'') out2
      in Inr out3)"

text \<open>Everything \<^verbatim>\<open>check_braces\<close> does once the content has been read.\<close>

definition check_content :: "string \<Rightarrow> string list result" where
  "check_content content =
     (case scan content of
        Inl e \<Rightarrow> Inl e
      | Inr s \<Rightarrow> for_each (report_step content) (printed s) (stack s))"

text \<open>
  \<^verbatim>\<open>check_braces(filename)\<close>. The environment \<open>read_file\<close> gives, for a path, the
  text that \<^verbatim>\<open>open\<close> and \<^verbatim>\<open>read\<close> return or the exception they raise.
\<close>

definition check_braces :: "(string \<Rightarrow> py_error + string) \<Rightarrow> string \<Rightarrow> string list result" where
  "check_braces read_file filename =
     (case read_file filename of
        Inl e \<Rightarrow> Inl (e, [])
      | Inr content \<Rightarrow> check_content content)"

subsection \<open>A standard output that can refuse a line\<close>

text \<open>
  Writing a line to standard output can raise, for a character that the encoding of
  standard output does not have or for a closed pipe. The environment \<open>stdout\<close> gives,
  for a line, the exception that writing it raises, if any. A \<^verbatim>\<open>print\<close> call that
  raises leaves the lines printed before it as they are.
\<close>

type_synonym stdout = "string \<Rightarrow> py_error option"

definition print_on :: "stdout \<Rightarrow> string \<Rightarrow> string list \<Rightarrow> string list result" where
  "print_on stdout line out =
     (case stdout line of Some e \<Rightarrow> Inl (e, out) | None \<Rightarrow> Inr (print line out))"

definition scan_step_on :: "stdout \<Rightarrow> scan_state \<Rightarrow> nat \<times> char \<Rightarrow> scan_state result" where
  "scan_step_on stdout s p =
     (case p of (i, ch) \<Rightarrow>
        if ch = CHR ''{'' then Inr (s\<lparr>stack := stack s @ [i]\<rparr>)
        else if ch = CHR ''}'' then
          (if stack s = [] then
             (case print_on stdout (''Extra closing brace at index '' @ str_nat i) (printed s) of
                Inl e \<Rightarrow> Inl e
              | Inr out \<Rightarrow> Inr (s\<lparr>printed := out\<rparr>))
           else
             (case pop (stack s) of
                Inl e \<Rightarrow> Inl (e, printed s)
              | Inr st \<Rightarrow> Inr (s\<lparr>stack := st\<rparr>)))
        else Inr s)"

definition scan_on :: "stdout \<Rightarrow> string \<Rightarrow> scan_state result" where
  "scan_on stdout content = for_each (scan_step_on stdout) scan_init (enumerate 0 content)"

definition report_step_on :: "stdout \<Rightarrow> string \<Rightarrow> string list \<Rightarrow> nat \<Rightarrow> string list result" where
  "report_step_on stdout content out pos =
     (case print_on stdout (''Unclosed opening brace at index '' @ str_nat pos) out of
        Inl e \<Rightarrow> Inl e
      | Inr out1 \<Rightarrow>
          (case print_on stdout (''  Line: '' @ str_nat (line_no content pos)) out1 of
             Inl e \<Rightarrow> Inl e
           | Inr out2 \<Rightarrow>
               print_on stdout (''  Context: '' @ slice content pos (pos + 50) @ ''...'') out2))"

definition check_content_on :: "stdout \<Rightarrow> string \<Rightarrow> string list result" where
  "check_content_on stdout content =
     (case scan_on stdout content of
        Inl e \<Rightarrow> Inl e
      | Inr s \<Rightarrow> for_each (report_step_on stdout content) (printed s) (stack s))"

definition check_braces_on ::
  "stdout \<Rightarrow> (string \<Rightarrow> py_error + string) \<Rightarrow> string \<Rightarrow> string list result" where
  "check_braces_on stdout read_file filename =
     (case read_file filename of
        Inl e \<Rightarrow> Inl (e, [])
      | Inr content \<Rightarrow> check_content_on stdout content)"

text \<open>Writing a list of lines, one \<^verbatim>\<open>print\<close> call each, up to the first that raises.\<close>

definition write_lines :: "stdout \<Rightarrow> string list \<Rightarrow> string list \<Rightarrow> string list result" where
  "write_lines stdout out ls = for_each (\<lambda>out line. print_on stdout line out) out ls"

text \<open>
  Two environments for examples: a standard output that encodes ASCII only, and a file
  system whose one readable file is \<open>name\<close>.
\<close>

definition ascii_stdout :: stdout where
  "ascii_stdout line =
     (if \<forall>ch\<in>set line. (of_char ch :: nat) < 128 then None else Some UnicodeEncodeError)"

definition one_file :: "string \<Rightarrow> string \<Rightarrow> string \<Rightarrow> py_error + string" where
  "one_file name content path = (if path = name then Inr content else Inl OSError)"

subsection \<open>Brace structure of a text\<close>

text \<open>
  The notions the description of the scanner is written in, stated on the text alone
  and without the stack: counts of braces, balanced text, the closing brace that
  matches an opening brace, and the openers and closers left without a partner.
\<close>

definition opens :: "string \<Rightarrow> nat" where
  "opens s = count_list s CHR ''{''"

definition closes :: "string \<Rightarrow> nat" where
  "closes s = count_list s CHR ''}''"

text \<open>
  Balanced and correctly nested: as many closers as openers, and no prefix with more
  closers than openers.
\<close>

definition balanced :: "string \<Rightarrow> bool" where
  "balanced s \<longleftrightarrow>
     opens s = closes s \<and> (\<forall>n\<in>set [0..<Suc (length s)]. closes (take n s) \<le> opens (take n s))"

text \<open>
  The opener at offset \<open>j\<close> is matched by the closer at offset \<open>k\<close>: the text strictly
  between them is balanced.
\<close>

definition matches :: "string \<Rightarrow> nat \<Rightarrow> nat \<Rightarrow> bool" where
  "matches c j k \<longleftrightarrow>
     j < k \<and> c ! j = CHR ''{'' \<and> c ! k = CHR ''}'' \<and> balanced (slice c (Suc j) k)"

text \<open>Offset \<open>j\<close> holds an opener that no closer at an offset below \<open>n\<close> matches.\<close>

definition unmatched_open :: "string \<Rightarrow> nat \<Rightarrow> nat \<Rightarrow> bool" where
  "unmatched_open c n j \<longleftrightarrow>
     j < n \<and> c ! j = CHR ''{'' \<and> (\<forall>k\<in>set [Suc j..<n]. \<not> matches c j k)"

definition unclosed :: "string \<Rightarrow> nat \<Rightarrow> nat list" where
  "unclosed c n = filter (unmatched_open c n) [0..<n]"

text \<open>Offset \<open>i\<close> holds a closer that no unmatched opener precedes.\<close>

definition extra_closer :: "string \<Rightarrow> nat \<Rightarrow> bool" where
  "extra_closer c i \<longleftrightarrow> c ! i = CHR ''}'' \<and> unclosed c i = []"

definition extra_closers :: "string \<Rightarrow> nat \<Rightarrow> nat list" where
  "extra_closers c n = filter (extra_closer c) [0..<n]"

text \<open>The lines of the two diagnostics.\<close>

definition extra_line :: "nat \<Rightarrow> string" where
  "extra_line i = ''Extra closing brace at index '' @ str_nat i"

definition unclosed_block :: "string \<Rightarrow> nat \<Rightarrow> string list" where
  "unclosed_block c pos =
     [''Unclosed opening brace at index '' @ str_nat pos,
      ''  Line: '' @ str_nat (line_no c pos),
      ''  Context: '' @ slice c pos (pos + 50) @ ''...'']"

text \<open>The lines of a whole report: the extra closers, then the unclosed openers.\<close>

definition diagnostics :: "string \<Rightarrow> string list" where
  "diagnostics c =
     map extra_line (extra_closers c (length c)) @
     concat (map (unclosed_block c) (unclosed c (length c)))"

text \<open>The numbers of diagnostics of either kind among printed lines.\<close>

definition extra_diagnostics :: "string list \<Rightarrow> nat" where
  "extra_diagnostics out = length (filter (prefix ''Extra closing brace at index '') out)"

definition unclosed_diagnostics :: "string list \<Rightarrow> nat" where
  "unclosed_diagnostics out = length (filter (prefix ''Unclosed opening brace at index '') out)"

subsection \<open>Auxiliary notions for the proofs\<close>

text \<open>
  Between the opener at offset \<open>j\<close> and offset \<open>n\<close>, the closers never outnumber
  the openers.
\<close>

definition stays_open :: "string \<Rightarrow> nat \<Rightarrow> nat \<Rightarrow> bool" where
  "stays_open c j n \<longleftrightarrow>
     (\<forall>k. j < k \<and> k < n \<longrightarrow> closes (slice c (Suc j) (Suc k)) \<le> opens (slice c (Suc j) (Suc k)))"

text \<open>The number of stack entries above offset \<open>j\<close>.\<close>

definition above :: "nat \<Rightarrow> nat list \<Rightarrow> nat" where
  "above j st = length (filter (\<lambda>i. j < i) st)"

text \<open>
  The invariant of the first loop: the stack is ascending, it holds the openers below
  \<open>n\<close> that stay open, and the surplus of openers after an entry is the number of
  entries above it.
\<close>

definition stack_inv :: "string \<Rightarrow> nat \<Rightarrow> nat list \<Rightarrow> bool" where
  "stack_inv c n st \<longleftrightarrow>
     sorted_wrt (<) st \<and>
     (\<forall>j. j \<in> set st \<longleftrightarrow> j < n \<and> c ! j = CHR ''{'' \<and> stays_open c j n) \<and>
     (\<forall>j\<in>set st. opens (slice c (Suc j) n) = closes (slice c (Suc j) n) + above j st)"

section \<open>The loops\<close>

lemma for_each_append:
  "for_each body s (xs @ ys) =
     (case for_each body s xs of Inl e \<Rightarrow> Inl e | Inr s' \<Rightarrow> for_each body s' ys)"
  by (induction xs arbitrary: s) (auto split: sum.splits)

lemma take_Suc_enumerate:
  "n < length c \<Longrightarrow> take (Suc n) (enumerate 0 c) = take n (enumerate 0 c) @ [(n, c ! n)]"
  by (simp add: take_Suc_conv_app_nth nth_enumerate_eq)

lemma scan_upto_0: "scan_upto c 0 = Inr scan_init"
  by (simp add: scan_upto_def)

lemma scan_upto_Suc:
  "n < length c \<Longrightarrow>
   scan_upto c (Suc n) = (case scan_upto c n of Inl e \<Rightarrow> Inl e | Inr s \<Rightarrow> scan_step s (n, c ! n))"
  by (simp add: scan_upto_def take_Suc_enumerate for_each_append split: sum.splits)

lemma scan_upto_length: "scan_upto c (length c) = scan c"
  by (simp add: scan_upto_def scan_def)

lemma pop_nonempty: "st \<noteq> [] \<Longrightarrow> pop st = Inr (butlast st)"
  by (cases st) simp_all

lemma scan_step_open: "scan_step s (i, CHR ''{'') = Inr (s\<lparr>stack := stack s @ [i]\<rparr>)"
  by (simp add: scan_step_def)

lemma scan_step_extra:
  "stack s = [] \<Longrightarrow> scan_step s (i, CHR ''}'') = Inr (s\<lparr>printed := printed s @ [extra_line i]\<rparr>)"
  by (simp add: scan_step_def print_def extra_line_def)

lemma scan_step_close:
  "stack s \<noteq> [] \<Longrightarrow> scan_step s (i, CHR ''}'') = Inr (s\<lparr>stack := butlast (stack s)\<rparr>)"
  by (simp add: scan_step_def pop_nonempty)

lemma scan_step_other:
  "ch \<noteq> CHR ''{'' \<Longrightarrow> ch \<noteq> CHR ''}'' \<Longrightarrow> scan_step s (i, ch) = Inr s"
  by (simp add: scan_step_def)

lemma scan_step_total: "\<exists>s'. scan_step s p = Inr s'"
proof (cases p)
  case (Pair i ch)
  show ?thesis
  proof (cases "ch = CHR ''{''")
    case True
    with Pair show ?thesis by (simp add: scan_step_open)
  next
    case notopen: False
    show ?thesis
    proof (cases "ch = CHR ''}''")
      case True
      with Pair show ?thesis
        by (cases "stack s = []") (simp_all add: scan_step_extra scan_step_close)
    next
      case False
      with notopen Pair show ?thesis by (simp add: scan_step_other)
    qed
  qed
qed

lemma scan_upto_total: "n \<le> length c \<Longrightarrow> \<exists>s. scan_upto c n = Inr s"
proof (induction n)
  case 0
  show ?case by (simp add: scan_upto_0)
next
  case (Suc n)
  then obtain s where "scan_upto c n = Inr s" by auto
  moreover obtain s' where "scan_step s (n, c ! n) = Inr s'"
    using scan_step_total by blast
  ultimately show ?case using Suc.prems by (simp add: scan_upto_Suc)
qed

text \<open>An invariant rule for the first loop, one case per branch of its body.\<close>

lemma scan_upto_induct [consumes 1, case_names init opener extra closer other]:
  assumes "n \<le> length c"
    and "P 0 scan_init"
    and "\<And>n s. n < length c \<Longrightarrow> scan_upto c n = Inr s \<Longrightarrow> P n s \<Longrightarrow> c ! n = CHR ''{'' \<Longrightarrow>
           P (Suc n) (s\<lparr>stack := stack s @ [n]\<rparr>)"
    and "\<And>n s. n < length c \<Longrightarrow> scan_upto c n = Inr s \<Longrightarrow> P n s \<Longrightarrow> c ! n = CHR ''}'' \<Longrightarrow>
           stack s = [] \<Longrightarrow> P (Suc n) (s\<lparr>printed := printed s @ [extra_line n]\<rparr>)"
    and "\<And>n s. n < length c \<Longrightarrow> scan_upto c n = Inr s \<Longrightarrow> P n s \<Longrightarrow> c ! n = CHR ''}'' \<Longrightarrow>
           stack s \<noteq> [] \<Longrightarrow> P (Suc n) (s\<lparr>stack := butlast (stack s)\<rparr>)"
    and "\<And>n s. n < length c \<Longrightarrow> scan_upto c n = Inr s \<Longrightarrow> P n s \<Longrightarrow> c ! n \<noteq> CHR ''{'' \<Longrightarrow>
           c ! n \<noteq> CHR ''}'' \<Longrightarrow> P (Suc n) s"
  shows "\<exists>s. scan_upto c n = Inr s \<and> P n s"
  using assms(1)
proof (induction n)
  case 0
  show ?case using assms(2) by (simp add: scan_upto_0)
next
  case (Suc n)
  then obtain s where s: "scan_upto c n = Inr s" "P n s" by auto
  have n: "n < length c" using Suc.prems by simp
  have next_state: "scan_upto c (Suc n) = scan_step s (n, c ! n)"
    using n s(1) by (simp add: scan_upto_Suc)
  show ?case
  proof (cases "c ! n = CHR ''{''")
    case True
    then show ?thesis
      using assms(3)[OF n s True] next_state by (simp add: scan_step_open)
  next
    case notopen: False
    show ?thesis
    proof (cases "c ! n = CHR ''}''")
      case close: True
      show ?thesis
      proof (cases "stack s = []")
        case True
        then show ?thesis
          using assms(4)[OF n s close True] next_state close by (simp add: scan_step_extra)
      next
        case False
        then show ?thesis
          using assms(5)[OF n s close False] next_state close by (simp add: scan_step_close)
      qed
    next
      case False
      then show ?thesis
        using assms(6)[OF n s notopen False] next_state notopen by (simp add: scan_step_other)
    qed
  qed
qed

lemma scan_upto_unique: "scan_upto c n = Inr s \<Longrightarrow> scan_upto c n = Inr s' \<Longrightarrow> s = s'"
  by simp

section \<open>The stack invariant\<close>

lemma slice_Suc: "a \<le> b \<Longrightarrow> b < length xs \<Longrightarrow> slice xs a (Suc b) = slice xs a b @ [xs ! b]"
  by (simp add: slice_def take_Suc_conv_app_nth)

lemma slice_empty [simp]: "slice xs a a = []"
  by (simp add: slice_def)

lemma opens_snoc: "opens (s @ [ch]) = (if ch = CHR ''{'' then Suc (opens s) else opens s)"
  by (simp add: opens_def)

lemma closes_snoc: "closes (s @ [ch]) = (if ch = CHR ''}'' then Suc (closes s) else closes s)"
  by (simp add: closes_def)

lemma opens_Nil [simp]: "opens [] = 0"
  by (simp add: opens_def)

lemma closes_Nil [simp]: "closes [] = 0"
  by (simp add: closes_def)

lemma stays_open_Suc:
  "stays_open c j (Suc n) \<longleftrightarrow>
     stays_open c j n \<and> (j < n \<longrightarrow> closes (slice c (Suc j) (Suc n)) \<le> opens (slice c (Suc j) (Suc n)))"
  unfolding stays_open_def by (auto simp: less_Suc_eq)

lemma stays_open_self [simp]: "stays_open c j (Suc j)"
  by (simp add: stays_open_def)

lemma above_snoc: "above j (st @ [n]) = (if j < n then Suc (above j st) else above j st)"
  by (simp add: above_def)

lemma above_Nil [simp]: "above j [] = 0"
  by (simp add: above_def)

lemma above_last:
  assumes "sorted_wrt (<) (st @ [l])"
  shows "above l (st @ [l]) = 0"
proof -
  have "\<forall>x\<in>set st. x < l" using assms by (simp add: sorted_wrt_append)
  then have "filter (\<lambda>i. l < i) st = []" by (auto simp: filter_empty_conv)
  then show ?thesis by (simp add: above_def)
qed

lemma stack_inv_init: "stack_inv c 0 []"
  by (simp add: stack_inv_def)

lemma stack_inv_opener:
  assumes inv: "stack_inv c n st" and n: "n < length c" and ch: "c ! n = CHR ''{''"
  shows "stack_inv c (Suc n) (st @ [n])"
proof -
  have sorted: "sorted_wrt (<) st"
    and mem: "\<And>j. j \<in> set st \<longleftrightarrow> j < n \<and> c ! j = CHR ''{'' \<and> stays_open c j n"
    and surplus: "\<And>j. j \<in> set st \<Longrightarrow> opens (slice c (Suc j) n) = closes (slice c (Suc j) n) + above j st"
    using inv by (simp_all add: stack_inv_def)
  have below: "\<forall>j\<in>set st. j < n" using mem by blast
  have 1: "sorted_wrt (<) (st @ [n])"
    using sorted below by (simp add: sorted_wrt_append)
  have 2: "j \<in> set (st @ [n]) \<longleftrightarrow> j < Suc n \<and> c ! j = CHR ''{'' \<and> stays_open c j (Suc n)" for j
  proof (cases "j < n")
    case True
    show ?thesis
    proof (cases "j \<in> set st")
      case True
      with surplus[OF True] \<open>j < n\<close> n ch mem[of j] show ?thesis
        by (simp add: stays_open_Suc slice_Suc opens_snoc closes_snoc)
    next
      case False
      with \<open>j < n\<close> mem[of j] show ?thesis by (auto simp: stays_open_Suc)
    qed
  next
    case False
    with below ch show ?thesis by (auto simp: less_Suc_eq)
  qed
  have 3: "opens (slice c (Suc j) (Suc n)) = closes (slice c (Suc j) (Suc n)) + above j (st @ [n])"
    if "j \<in> set (st @ [n])" for j
  proof (cases "j = n")
    case True
    have "above n (st @ [n]) = 0" using 1 by (rule above_last)
    with True show ?thesis by simp
  next
    case False
    with that have j: "j \<in> set st" by simp
    then have "j < n" using below by blast
    with surplus[OF j] n ch show ?thesis
      by (simp add: slice_Suc opens_snoc closes_snoc above_snoc)
  qed
  show ?thesis unfolding stack_inv_def using 1 2 3 by blast
qed

lemma stack_inv_surplus:
  "stack_inv c n st \<Longrightarrow> j \<in> set st \<Longrightarrow>
   opens (slice c (Suc j) n) = closes (slice c (Suc j) n) + above j st"
  by (simp add: stack_inv_def)

lemma stack_inv_mem:
  "stack_inv c n st \<Longrightarrow> j \<in> set st \<longleftrightarrow> j < n \<and> c ! j = CHR ''{'' \<and> stays_open c j n"
  by (simp add: stack_inv_def)

lemma stack_inv_sorted: "stack_inv c n st \<Longrightarrow> sorted_wrt (<) st"
  by (simp add: stack_inv_def)

lemma stack_inv_other:
  assumes inv: "stack_inv c n st" and n: "n < length c"
    and ch: "c ! n \<noteq> CHR ''{''" "c ! n \<noteq> CHR ''}''"
  shows "stack_inv c (Suc n) st"
proof -
  note mem = stack_inv_mem[OF inv] and surplus = stack_inv_surplus[OF inv]
  have 2: "j \<in> set st \<longleftrightarrow> j < Suc n \<and> c ! j = CHR ''{'' \<and> stays_open c j (Suc n)" for j
  proof (cases "j < n")
    case True
    show ?thesis
    proof (cases "j \<in> set st")
      case True
      with surplus[OF True] \<open>j < n\<close> n ch mem[of j] show ?thesis
        by (simp add: stays_open_Suc slice_Suc opens_snoc closes_snoc)
    next
      case False
      with \<open>j < n\<close> mem[of j] show ?thesis by (auto simp: stays_open_Suc)
    qed
  next
    case False
    with mem[of j] ch show ?thesis by (auto simp: less_Suc_eq)
  qed
  have 3: "opens (slice c (Suc j) (Suc n)) = closes (slice c (Suc j) (Suc n)) + above j st"
    if j: "j \<in> set st" for j
  proof -
    have "j < n" using mem[of j] j by simp
    with surplus[OF j] n ch show ?thesis
      by (simp add: slice_Suc opens_snoc closes_snoc)
  qed
  show ?thesis unfolding stack_inv_def using stack_inv_sorted[OF inv] 2 3 by blast
qed

lemma stack_inv_extra:
  assumes inv: "stack_inv c n []" and n: "n < length c" and ch: "c ! n = CHR ''}''"
  shows "stack_inv c (Suc n) []"
proof -
  note mem = stack_inv_mem[OF inv]
  have "\<not> (j < Suc n \<and> c ! j = CHR ''{'' \<and> stays_open c j (Suc n))" for j
  proof (cases "j < n")
    case True
    with mem[of j] show ?thesis by (auto simp: stays_open_Suc)
  next
    case False
    with ch show ?thesis by (auto simp: less_Suc_eq)
  qed
  then show ?thesis by (simp add: stack_inv_def)
qed

lemma stack_inv_closer:
  assumes inv: "stack_inv c n st" and n: "n < length c" and ch: "c ! n = CHR ''}''"
    and ne: "st \<noteq> []"
  shows "stack_inv c (Suc n) (butlast st)"
proof -
  note mem = stack_inv_mem[OF inv] and surplus = stack_inv_surplus[OF inv]
  define xs l where "xs = butlast st" and "l = last st"
  have st: "st = xs @ [l]" using ne by (simp add: xs_def l_def)
  have sorted: "sorted_wrt (<) (xs @ [l])" using stack_inv_sorted[OF inv] st by simp
  then have sorted_xs: "sorted_wrt (<) xs" and below_l: "\<forall>x\<in>set xs. x < l"
    by (simp_all add: sorted_wrt_append)
  have above_l: "above l st = 0" using above_last[OF sorted] st by simp
  have above_xs: "above j st = Suc (above j xs)" if "j \<in> set xs" for j
    using that below_l by (simp add: st above_snoc)
  have l_notin: "l \<notin> set xs" using below_l by auto
  have 2: "j \<in> set xs \<longleftrightarrow> j < Suc n \<and> c ! j = CHR ''{'' \<and> stays_open c j (Suc n)" for j
  proof (cases "j < n")
    case jn: True
    show ?thesis
    proof (cases "j \<in> set st")
      case True
      show ?thesis
      proof (cases "j = l")
        case True
        with surplus[OF \<open>j \<in> set st\<close>] above_l jn n ch l_notin show ?thesis
          by (simp add: stays_open_Suc slice_Suc opens_snoc closes_snoc)
      next
        case False
        with \<open>j \<in> set st\<close> have jx: "j \<in> set xs" by (simp add: st)
        with surplus[OF \<open>j \<in> set st\<close>] above_xs[OF jx] jn n ch mem[of j] \<open>j \<in> set st\<close>
        show ?thesis
          by (simp add: stays_open_Suc slice_Suc opens_snoc closes_snoc)
      qed
    next
      case False
      then have "j \<notin> set xs" by (simp add: st)
      with False jn mem[of j] show ?thesis by (auto simp: stays_open_Suc)
    qed
  next
    case False
    have "j \<notin> set xs" using False mem[of j] by (auto simp: st)
    with False ch show ?thesis by (auto simp: less_Suc_eq)
  qed
  have 3: "opens (slice c (Suc j) (Suc n)) = closes (slice c (Suc j) (Suc n)) + above j xs"
    if jx: "j \<in> set xs" for j
  proof -
    have j: "j \<in> set st" using jx by (simp add: st)
    then have "j < n" using mem[of j] by simp
    with surplus[OF j] above_xs[OF jx] n ch show ?thesis
      by (simp add: slice_Suc opens_snoc closes_snoc)
  qed
  show ?thesis unfolding stack_inv_def xs_def[symmetric] using sorted_xs 2 3 by blast
qed

lemma scan_upto_stack_inv:
  assumes "n \<le> length c"
  shows "\<exists>s. scan_upto c n = Inr s \<and> stack_inv c n (stack s)"
  using assms
proof (induction rule: scan_upto_induct)
  case init
  show ?case by (simp add: scan_init_def stack_inv_init)
next
  case (opener n s)
  then show ?case by (simp add: stack_inv_opener)
next
  case (extra n s)
  then show ?case using stack_inv_extra[of c n] by simp
next
  case (closer n s)
  then show ?case by (simp add: stack_inv_closer)
next
  case (other n s)
  then show ?case by (simp add: stack_inv_other)
qed

section \<open>Matching\<close>

lemma take_slice: "take m (slice xs a b) = slice xs a (min (a + m) b)"
  by (simp add: slice_def take_drop add.commute min.commute)

lemma length_slice: "b \<le> length xs \<Longrightarrow> length (slice xs a b) = b - a"
  by (simp add: slice_def)

lemma stays_open_le:
  assumes "stays_open c j n" and "j < n"
  shows "closes (slice c (Suc j) n) \<le> opens (slice c (Suc j) n)"
proof (cases "n = Suc j")
  case True
  then show ?thesis by simp
next
  case False
  with \<open>j < n\<close> obtain k where "n = Suc k" "j < k" "k < n"
    by (cases n) auto
  with assms(1) show ?thesis by (simp add: stays_open_def)
qed

lemma balanced_slice_iff:
  assumes "j < k" and "k \<le> length c"
  shows "balanced (slice c (Suc j) k) \<longleftrightarrow>
         opens (slice c (Suc j) k) = closes (slice c (Suc j) k) \<and> stays_open c j k"
proof -
  have len: "length (slice c (Suc j) k) = k - Suc j"
    using assms by (simp add: length_slice)
  have "(\<forall>m\<in>set [0..<Suc (length (slice c (Suc j) k))].
            closes (take m (slice c (Suc j) k)) \<le> opens (take m (slice c (Suc j) k)))
        \<longleftrightarrow> stays_open c j k" (is "?L \<longleftrightarrow> ?R")
  proof
    assume L: ?L
    show ?R unfolding stays_open_def
    proof (intro allI impI)
      fix k' assume k': "j < k' \<and> k' < k"
      then have "k' - j \<le> k - Suc j" by arith
      then have "k' - j \<in> set [0..<Suc (length (slice c (Suc j) k))]"
        by (auto simp: len)
      with L have "closes (take (k' - j) (slice c (Suc j) k)) \<le> opens (take (k' - j) (slice c (Suc j) k))"
        by blast
      moreover have "min (Suc j + (k' - j)) k = Suc k'" using k' by simp
      ultimately show "closes (slice c (Suc j) (Suc k')) \<le> opens (slice c (Suc j) (Suc k'))"
        by (simp only: take_slice)
    qed
  next
    assume R: ?R
    show ?L
    proof
      fix m assume "m \<in> set [0..<Suc (length (slice c (Suc j) k))]"
      then have m: "m \<le> k - Suc j" by (auto simp: len)
      show "closes (take m (slice c (Suc j) k)) \<le> opens (take m (slice c (Suc j) k))"
      proof (cases m)
        case 0
        then show ?thesis by simp
      next
        case (Suc m')
        with m assms have "j < j + m \<and> j + m < k" "min (Suc j + m) k = Suc (j + m)" by auto
        with R show ?thesis by (simp add: take_slice stays_open_def)
      qed
    qed
  qed
  then show ?thesis by (simp add: balanced_def)
qed

lemma no_match_iff_stays_open:
  assumes "c ! j = CHR ''{''" and "j < n" and "n \<le> length c"
  shows "(\<forall>k\<in>set [Suc j..<n]. \<not> matches c j k) \<longleftrightarrow> stays_open c j n"
proof -
  have "Suc j \<le> n" using \<open>j < n\<close> by simp
  then have "n \<le> length c \<longrightarrow> ((\<forall>k. j < k \<and> k < n \<longrightarrow> \<not> matches c j k) \<longleftrightarrow> stays_open c j n)"
  proof (induction n rule: dec_induct)
    case base
    show ?case by auto
  next
    case (step n)
    show ?case
    proof
      assume len: "Suc n \<le> length c"
      with step.IH have IH: "(\<forall>k. j < k \<and> k < n \<longrightarrow> \<not> matches c j k) \<longleftrightarrow> stays_open c j n"
        by simp
      have jn: "j < n" using step.hyps by simp
      have split: "(\<forall>k. j < k \<and> k < Suc n \<longrightarrow> \<not> matches c j k) \<longleftrightarrow>
                   (\<forall>k. j < k \<and> k < n \<longrightarrow> \<not> matches c j k) \<and> \<not> matches c j n"
        using jn by (auto simp: less_Suc_eq)
      show "(\<forall>k. j < k \<and> k < Suc n \<longrightarrow> \<not> matches c j k) \<longleftrightarrow> stays_open c j (Suc n)"
      proof (cases "stays_open c j n")
        case False
        with IH split show ?thesis by (simp add: stays_open_Suc)
      next
        case True
        have le: "closes (slice c (Suc j) n) \<le> opens (slice c (Suc j) n)"
          using stays_open_le[OF True jn] .
        have m: "matches c j n \<longleftrightarrow>
                 c ! n = CHR ''}'' \<and> opens (slice c (Suc j) n) = closes (slice c (Suc j) n)"
          using True jn len assms(1) by (simp add: matches_def balanced_slice_iff)
        have "\<not> matches c j n \<longleftrightarrow>
              closes (slice c (Suc j) (Suc n)) \<le> opens (slice c (Suc j) (Suc n))"
          using le jn len unfolding m by (auto simp: slice_Suc opens_snoc closes_snoc)
        with True IH split jn show ?thesis by (simp add: stays_open_Suc)
      qed
    qed
  qed
  with assms(3) show ?thesis by auto
qed

lemma unmatched_open_iff:
  "n \<le> length c \<Longrightarrow>
   unmatched_open c n j \<longleftrightarrow> j < n \<and> c ! j = CHR ''{'' \<and> stays_open c j n"
  using no_match_iff_stays_open[of c j n] by (auto simp: unmatched_open_def)

lemma stack_inv_unclosed:
  assumes "stack_inv c n st" and "n \<le> length c"
  shows "st = unclosed c n"
proof -
  have "sorted_wrt (<) st" using assms(1) by (rule stack_inv_sorted)
  then have "sorted st" "distinct st"
    by (simp_all add: strict_sorted_iff)
  moreover have "sorted (unclosed c n)" "distinct (unclosed c n)"
    by (simp_all add: unclosed_def sorted_wrt_filter)
  moreover have "set st = set (unclosed c n)"
    using stack_inv_mem[OF assms(1)] unmatched_open_iff[OF assms(2)]
    by (auto simp: unclosed_def)
  ultimately show ?thesis by (rule sorted_distinct_set_unique)
qed

lemma scan_upto_stack:
  assumes "n \<le> length c"
  shows "\<exists>s. scan_upto c n = Inr s \<and> stack s = unclosed c n"
  using scan_upto_stack_inv[OF assms] stack_inv_unclosed[OF _ assms] by blast

section \<open>What is printed\<close>

lemma extra_closers_Suc:
  "extra_closers c (Suc n) = extra_closers c n @ (if extra_closer c n then [n] else [])"
  by (simp add: extra_closers_def)

lemma scan_upto_stack_eq: "n \<le> length c \<Longrightarrow> scan_upto c n = Inr s \<Longrightarrow> stack s = unclosed c n"
  using scan_upto_stack[of n c] by auto

lemma scan_upto_printed:
  assumes "n \<le> length c"
  shows "\<exists>s. scan_upto c n = Inr s \<and> printed s = map extra_line (extra_closers c n)"
  using assms
proof (induction rule: scan_upto_induct)
  case init
  show ?case by (simp add: scan_init_def extra_closers_def)
next
  case (opener n s)
  then show ?case by (simp add: extra_closers_Suc extra_closer_def)
next
  case (extra n s)
  then have "unclosed c n = []" using scan_upto_stack_eq[of n c s] by simp
  with extra show ?case by (simp add: extra_closers_Suc extra_closer_def)
next
  case (closer n s)
  then have "unclosed c n \<noteq> []" using scan_upto_stack_eq[of n c s] by simp
  with closer show ?case by (simp add: extra_closers_Suc extra_closer_def)
next
  case (other n s)
  then show ?case by (simp add: extra_closers_Suc extra_closer_def)
qed

lemma scan_result:
  "scan c = Inr \<lparr>stack = unclosed c (length c), printed = map extra_line (extra_closers c (length c))\<rparr>"
proof -
  obtain s where s: "scan_upto c (length c) = Inr s"
    "printed s = map extra_line (extra_closers c (length c))"
    using scan_upto_printed[of "length c" c] by auto
  moreover have "stack s = unclosed c (length c)"
    using scan_upto_stack_eq[OF _ s(1)] by simp
  ultimately show ?thesis by (simp add: scan_upto_length[symmetric])
qed

lemma report_step_eq: "report_step c out pos = Inr (out @ unclosed_block c pos)"
  by (simp add: report_step_def print_def unclosed_block_def)

lemma report_loop:
  "for_each (report_step c) out st = Inr (out @ concat (map (unclosed_block c) st))"
  by (induction st arbitrary: out) (simp_all add: report_step_eq)

lemma check_content_eq:
  "check_content c =
     Inr (map extra_line (extra_closers c (length c)) @
          concat (map (unclosed_block c) (unclosed c (length c))))"
  by (simp add: check_content_def scan_result report_loop)

text \<open>Counting: the stack and the printed lines against the braces read so far.\<close>

lemma scan_upto_counts:
  assumes "n \<le> length c"
  shows "\<exists>s. scan_upto c n = Inr s \<and>
           length (stack s) + closes (take n c) = length (printed s) + opens (take n c)"
  using assms
proof (induction rule: scan_upto_induct)
  case init
  show ?case by (simp add: scan_init_def)
next
  case (opener n s)
  then show ?case by (simp add: take_Suc_conv_app_nth opens_snoc closes_snoc)
next
  case (extra n s)
  then show ?case by (simp add: take_Suc_conv_app_nth opens_snoc closes_snoc)
next
  case (closer n s)
  then have "closes (take (Suc n) c) = Suc (closes (take n c))"
    "opens (take (Suc n) c) = opens (take n c)"
    by (simp_all add: take_Suc_conv_app_nth opens_snoc closes_snoc)
  then show ?case using closer by (cases "stack s") auto
next
  case (other n s)
  then show ?case by (simp add: take_Suc_conv_app_nth opens_snoc closes_snoc)
qed

lemma brace_counts:
  "length (unclosed c (length c)) + closes c = length (extra_closers c (length c)) + opens c"
  using scan_upto_counts[of "length c" c] by (simp add: scan_upto_length scan_result)

section \<open>Properties of a run\<close>

lemma brace_counts_upto:
  assumes "n \<le> length c"
  shows "length (unclosed c n) + closes (take n c) = length (extra_closers c n) + opens (take n c)"
proof -
  obtain s where s: "scan_upto c n = Inr s"
    "length (stack s) + closes (take n c) = length (printed s) + opens (take n c)"
    using scan_upto_counts[OF assms] by auto
  moreover have "stack s = unclosed c n" using scan_upto_stack_eq[OF assms s(1)] .
  moreover have "printed s = map extra_line (extra_closers c n)"
    using scan_upto_printed[OF assms] s(1) by auto
  ultimately show ?thesis by simp
qed

lemma set_unclosed: "set (unclosed c n) \<subseteq> {0..<n}"
  by (auto simp: unclosed_def)

lemma sorted_unclosed: "sorted_wrt (<) (unclosed c n)"
  unfolding unclosed_def by (rule sorted_wrt_filter) (rule sorted_wrt_upt)

lemma sorted_extra_closers: "sorted_wrt (<) (extra_closers c n)"
  unfolding extra_closers_def by (rule sorted_wrt_filter) (rule sorted_wrt_upt)

subsection \<open>Balanced text\<close>

lemma no_extra_closers:
  assumes prefixes: "\<forall>m\<le>length c. closes (take m c) \<le> opens (take m c)"
    and "n \<le> length c"
  shows "extra_closers c n = []"
  using assms(2)
proof (induction n)
  case 0
  show ?case by (simp add: extra_closers_def)
next
  case (Suc n)
  then have IH: "extra_closers c n = []" and n: "n < length c" by simp_all
  have "\<not> extra_closer c n"
  proof
    assume "extra_closer c n"
    then have ch: "c ! n = CHR ''}''" and "unclosed c n = []"
      by (simp_all add: extra_closer_def)
    with IH brace_counts_upto[of n c] n have "closes (take n c) = opens (take n c)"
      by simp
    with ch n have "opens (take (Suc n) c) < closes (take (Suc n) c)"
      by (simp add: take_Suc_conv_app_nth opens_snoc closes_snoc)
    moreover have "closes (take (Suc n) c) \<le> opens (take (Suc n) c)"
      using prefixes n by (simp add: Suc_le_eq)
    ultimately show False by simp
  qed
  with IH show ?case by (simp add: extra_closers_Suc)
qed

lemma balanced_clean:
  assumes "balanced c"
  shows "extra_closers c (length c) = []" and "unclosed c (length c) = []"
proof -
  have eq: "opens c = closes c"
    and prefixes: "\<forall>m\<le>length c. closes (take m c) \<le> opens (take m c)"
    using assms by (auto simp: balanced_def)
  show "extra_closers c (length c) = []"
    using no_extra_closers[OF prefixes] by simp
  with brace_counts[of c] eq show "unclosed c (length c) = []" by simp
qed

text \<open>
  C1. For a text whose braces are balanced and correctly nested, the run does not fail
  and prints nothing.
\<close>

theorem balanced_prints_nothing: "balanced c \<Longrightarrow> check_content c = Inr []"
  by (simp add: check_content_eq balanced_clean)

theorem balanced_prints_nothing_witness:
  "balanced ''{{}}'' \<and> check_content ''{{}}'' = Inr [] \<and>
   balanced [] \<and> check_content [] = Inr []"
proof -
  have b: "balanced ''{{}}''" "balanced []" by code_simp+
  with balanced_prints_nothing[of "''{{}}''"] balanced_prints_nothing[of "[]"]
  show ?thesis by simp
qed

subsection \<open>Closers only\<close>

lemma closers_only:
  assumes "set c \<subseteq> {CHR ''}''}" and "n \<le> length c"
  shows "unclosed c n = []" and "extra_closers c n = [0..<n]"
proof -
  have ch: "c ! j = CHR ''}''" if "j < length c" for j
    using assms(1) that nth_mem by fastforce
  have u: "unclosed c m = []" if "m \<le> length c" for m
    using that ch by (auto simp: unclosed_def unmatched_open_def filter_empty_conv)
  show "unclosed c n = []" using u assms(2) by simp
  have "\<forall>i\<in>set [0..<n]. extra_closer c i"
    using ch u assms(2) by (simp add: extra_closer_def)
  then show "extra_closers c n = [0..<n]"
    unfolding extra_closers_def by (simp only: filter_True)
qed

text \<open>
  C3. For a text of closers only, the run prints one extra-closing-brace line for each
  offset of the text, in ascending order of the offsets, and nothing else.
\<close>

theorem closers_only_output:
  "set c \<subseteq> {CHR ''}''} \<Longrightarrow>
   check_content c = Inr (map (\<lambda>i. ''Extra closing brace at index '' @ str_nat i) [0..<length c])"
  using closers_only[of c "length c"]
  by (simp add: check_content_eq extra_line_def)

theorem closers_only_output_witness:
  "set ''}}}'' \<subseteq> {CHR ''}''} \<and>
   check_content ''}}}'' =
     Inr [''Extra closing brace at index 0'', ''Extra closing brace at index 1'',
          ''Extra closing brace at index 2'']"
proof -
  have h: "set ''}}}'' \<subseteq> {CHR ''}''}" by simp
  have "map (\<lambda>i. ''Extra closing brace at index '' @ str_nat i) [0..<length ''}}}''] =
        [''Extra closing brace at index 0'', ''Extra closing brace at index 1'',
         ''Extra closing brace at index 2'']"
    by code_simp
  with closers_only_output[OF h] h show ?thesis by simp
qed

subsection \<open>The block for an unclosed opener\<close>

lemma count_list_take:
  "pos \<le> length c \<Longrightarrow> count_list (take pos c) x = length (filter (\<lambda>k. c ! k = x) [0..<pos])"
  by (induction pos) (simp_all add: take_Suc_conv_app_nth)

lemma line_no_eq:
  "pos \<le> length c \<Longrightarrow>
   line_no c pos = length (filter (\<lambda>k. c ! k = CHR ''\<newline>'') [0..<pos]) + 1"
  by (simp add: line_no_def slice_def count_list_take)

lemma snippet_eq: "slice c pos (pos + 50) = take (min 50 (length c - pos)) (drop pos c)"
proof -
  have "slice c pos (pos + 50) = take 50 (drop pos c)"
    by (simp add: slice_def drop_take)
  also have "\<dots> = take (min 50 (length (drop pos c))) (drop pos c)"
    by (simp add: min_def)
  finally show ?thesis by simp
qed

lemma str_nat_4: "str_nat 4 = ''4''"
  by code_simp

text \<open>
  C4. The run prints the extra-closer lines and then, for each unclosed opener, a block
  whose second line carries the number of newline characters at the offsets below the
  opener, plus one. An unclosed opener with three newlines before it gets line 4.
\<close>

theorem unclosed_line_number:
  "check_content c =
     Inr (map extra_line (extra_closers c (length c)) @
          concat (map (\<lambda>pos.
            [''Unclosed opening brace at index '' @ str_nat pos,
             ''  Line: '' @ str_nat (length (filter (\<lambda>k. c ! k = CHR ''\<newline>'') [0..<pos]) + 1),
             ''  Context: '' @ slice c pos (pos + 50) @ ''...''])
            (unclosed c (length c)))) \<and>
   (\<forall>pos\<in>set (unclosed c (length c)).
      length (filter (\<lambda>k. c ! k = CHR ''\<newline>'') [0..<pos]) = 3 \<longrightarrow>
      report_step c out pos =
        Inr (out @ [''Unclosed opening brace at index '' @ str_nat pos, ''  Line: 4'',
                    ''  Context: '' @ slice c pos (pos + 50) @ ''...'']))"
proof (intro conjI ballI impI)
  have pos_le: "pos \<le> length c" if "pos \<in> set (unclosed c (length c))" for pos
    using that set_unclosed[of c "length c"] by auto
  have "map (unclosed_block c) (unclosed c (length c)) =
        map (\<lambda>pos.
            [''Unclosed opening brace at index '' @ str_nat pos,
             ''  Line: '' @ str_nat (length (filter (\<lambda>k. c ! k = CHR ''\<newline>'') [0..<pos]) + 1),
             ''  Context: '' @ slice c pos (pos + 50) @ ''...'']) (unclosed c (length c))"
    by (rule map_cong[OF refl]) (simp add: unclosed_block_def line_no_eq[OF pos_le])
  then show "check_content c =
     Inr (map extra_line (extra_closers c (length c)) @
          concat (map (\<lambda>pos.
            [''Unclosed opening brace at index '' @ str_nat pos,
             ''  Line: '' @ str_nat (length (filter (\<lambda>k. c ! k = CHR ''\<newline>'') [0..<pos]) + 1),
             ''  Context: '' @ slice c pos (pos + 50) @ ''...''])
            (unclosed c (length c))))"
    by (simp only: check_content_eq)
next
  fix pos
  assume pos: "pos \<in> set (unclosed c (length c))"
    and three: "length (filter (\<lambda>k. c ! k = CHR ''\<newline>'') [0..<pos]) = 3"
  have "pos \<le> length c" using pos set_unclosed[of c "length c"] by auto
  then have "line_no c pos = 4" using three by (simp add: line_no_eq)
  then show "report_step c out pos =
        Inr (out @ [''Unclosed opening brace at index '' @ str_nat pos, ''  Line: 4'',
                    ''  Context: '' @ slice c pos (pos + 50) @ ''...''])"
    by (simp add: report_step_eq unclosed_block_def str_nat_4)
qed

theorem unclosed_line_number_witness:
  "5 \<in> set (unclosed ''a\<newline>\<newline>b\<newline>{c'' (length ''a\<newline>\<newline>b\<newline>{c'')) \<and>
   length (filter (\<lambda>k. ''a\<newline>\<newline>b\<newline>{c'' ! k = CHR ''\<newline>'') [0..<5]) = 3 \<and>
   check_content ''a\<newline>\<newline>b\<newline>{c'' =
     Inr [''Unclosed opening brace at index 5'', ''  Line: 4'', ''  Context: {c...''] \<and>
   report_step ''a\<newline>\<newline>b\<newline>{c'' [] 5 =
     Inr [''Unclosed opening brace at index 5'', ''  Line: 4'', ''  Context: {c...'']"
proof -
  let ?c = "''a\<newline>\<newline>b\<newline>{c''"
  have m: "5 \<in> set (unclosed ?c (length ?c))" by code_simp
  have three: "length (filter (\<lambda>k. ?c ! k = CHR ''\<newline>'') [0..<5]) = 3" by code_simp
  have rhs: "map extra_line (extra_closers ?c (length ?c)) @
          concat (map (\<lambda>pos.
            [''Unclosed opening brace at index '' @ str_nat pos,
             ''  Line: '' @ str_nat (length (filter (\<lambda>k. ?c ! k = CHR ''\<newline>'') [0..<pos]) + 1),
             ''  Context: '' @ slice ?c pos (pos + 50) @ ''...''])
            (unclosed ?c (length ?c))) =
     [''Unclosed opening brace at index 5'', ''  Line: 4'', ''  Context: {c...'']"
    by code_simp
  have blk: "[''Unclosed opening brace at index '' @ str_nat 5, ''  Line: 4'',
              ''  Context: '' @ slice ?c 5 (5 + 50) @ ''...''] =
     [''Unclosed opening brace at index 5'', ''  Line: 4'', ''  Context: {c...'']"
    by code_simp
  note inst = unclosed_line_number[of ?c "[]"]
  have 1: "check_content ?c =
     Inr [''Unclosed opening brace at index 5'', ''  Line: 4'', ''  Context: {c...'']"
    using inst[THEN conjunct1] by (simp only: rhs)
  have 2: "report_step ?c [] 5 =
     Inr [''Unclosed opening brace at index 5'', ''  Line: 4'', ''  Context: {c...'']"
    using inst[THEN conjunct2, rule_format, OF m three] by (simp only: blk append_Nil)
  show ?thesis using m three 1 2 by blast
qed

text \<open>
  C5. In the block of every unclosed opener the third line carries the text from the
  opener on, 50 characters of it or all that is left when the text ends sooner, and
  then three dots, whatever the length of the snippet.
\<close>

theorem context_snippet:
  "check_content c =
     Inr (map extra_line (extra_closers c (length c)) @
          concat (map (\<lambda>pos.
            [''Unclosed opening brace at index '' @ str_nat pos,
             ''  Line: '' @ str_nat (line_no c pos),
             ''  Context: '' @ take (min 50 (length c - pos)) (drop pos c) @ ''...''])
            (unclosed c (length c)))) \<and>
   length (take (min 50 (length c - pos)) (drop pos c)) = min 50 (length c - pos)"
proof
  have "unclosed_block c =
        (\<lambda>pos. [''Unclosed opening brace at index '' @ str_nat pos,
             ''  Line: '' @ str_nat (line_no c pos),
             ''  Context: '' @ take (min 50 (length c - pos)) (drop pos c) @ ''...''])"
    by (rule ext) (simp only: unclosed_block_def snippet_eq)
  then show "check_content c =
     Inr (map extra_line (extra_closers c (length c)) @
          concat (map (\<lambda>pos.
            [''Unclosed opening brace at index '' @ str_nat pos,
             ''  Line: '' @ str_nat (line_no c pos),
             ''  Context: '' @ take (min 50 (length c - pos)) (drop pos c) @ ''...''])
            (unclosed c (length c))))"
    by (simp only: check_content_eq)
  show "length (take (min 50 (length c - pos)) (drop pos c)) = min 50 (length c - pos)"
    by simp
qed

theorem context_snippet_witness:
  "check_content ''ab{cd'' =
     Inr [''Unclosed opening brace at index 2'', ''  Line: 1'', ''  Context: {cd...''] \<and>
   check_content (CHR ''{'' # replicate 60 CHR ''x'') =
     Inr [''Unclosed opening brace at index 0'', ''  Line: 1'',
          ''  Context: '' @ CHR ''{'' # replicate 49 CHR ''x'' @ ''...'']"
proof -
  let ?c = "''ab{cd''" and ?d = "CHR ''{'' # replicate 60 CHR ''x''"
  have c: "map extra_line (extra_closers ?c (length ?c)) @
          concat (map (\<lambda>pos.
            [''Unclosed opening brace at index '' @ str_nat pos,
             ''  Line: '' @ str_nat (line_no ?c pos),
             ''  Context: '' @ take (min 50 (length ?c - pos)) (drop pos ?c) @ ''...''])
            (unclosed ?c (length ?c))) =
     [''Unclosed opening brace at index 2'', ''  Line: 1'', ''  Context: {cd...'']"
    by code_simp
  have d: "map extra_line (extra_closers ?d (length ?d)) @
          concat (map (\<lambda>pos.
            [''Unclosed opening brace at index '' @ str_nat pos,
             ''  Line: '' @ str_nat (line_no ?d pos),
             ''  Context: '' @ take (min 50 (length ?d - pos)) (drop pos ?d) @ ''...''])
            (unclosed ?d (length ?d))) =
     [''Unclosed opening brace at index 0'', ''  Line: 1'',
          ''  Context: '' @ CHR ''{'' # replicate 49 CHR ''x'' @ ''...'']"
    by code_simp
  have 1: "check_content ?c =
     Inr [''Unclosed opening brace at index 2'', ''  Line: 1'', ''  Context: {cd...'']"
    using context_snippet[of ?c, THEN conjunct1] by (simp only: c)
  have 2: "check_content ?d =
     Inr [''Unclosed opening brace at index 0'', ''  Line: 1'',
          ''  Context: '' @ CHR ''{'' # replicate 49 CHR ''x'' @ ''...'']"
    using context_snippet[of ?d, THEN conjunct1] by (simp only: d)
  show ?thesis using 1 2 by blast
qed

subsection \<open>The example of two closers\<close>

text \<open>
  C2. The example of the description, the six characters \<open>a\<close>, opener, newline, \<open>b\<close>,
  closer, closer: it is not the case that the closers sit at offsets 3 and 4 and that
  the one line printed names index 4.
\<close>

theorem example_index_counterexample:
  "\<not> (''a{\<newline>b}}'' ! 3 = CHR ''}'' \<and> ''a{\<newline>b}}'' ! 4 = CHR ''}'' \<and>
      check_content ''a{\<newline>b}}'' = Inr [''Extra closing brace at index 4''])"
  by code_simp

text \<open>
  C2, amended. In that text the opener is at offset 1 and the closers are at offsets 4
  and 5. The closer at offset 4 matches the opener: after it the stack is empty and
  nothing has been printed. The closer at offset 5 meets the empty stack, and the one
  line printed by the whole run names index 5.
\<close>

theorem example_index:
  "length ''a{\<newline>b}}'' = 6 \<and>
   ''a{\<newline>b}}'' ! 1 = CHR ''{'' \<and> ''a{\<newline>b}}'' ! 4 = CHR ''}'' \<and> ''a{\<newline>b}}'' ! 5 = CHR ''}'' \<and>
   matches ''a{\<newline>b}}'' 1 4 \<and>
   scan_upto ''a{\<newline>b}}'' 4 = Inr \<lparr>stack = [1], printed = []\<rparr> \<and>
   scan_upto ''a{\<newline>b}}'' 5 = Inr \<lparr>stack = [], printed = []\<rparr> \<and>
   scan_upto ''a{\<newline>b}}'' 6 = Inr \<lparr>stack = [], printed = [''Extra closing brace at index 5'']\<rparr> \<and>
   check_content ''a{\<newline>b}}'' = Inr [''Extra closing brace at index 5'']"
  by code_simp

subsection \<open>Order of the diagnostics\<close>

text \<open>
  C6. After any number of iterations the scan has printed the lines of the extra
  closers met so far, in ascending order of their offsets, and nothing else. The run
  prints these lines first and the blocks of the unclosed openers after them, in
  ascending order of the offsets of the openers.
\<close>

theorem diagnostics_order:
  "(\<forall>n\<le>length c. \<exists>s. scan_upto c n = Inr s \<and>
       printed s = map (\<lambda>i. ''Extra closing brace at index '' @ str_nat i) (extra_closers c n)) \<and>
   check_content c =
     Inr (map (\<lambda>i. ''Extra closing brace at index '' @ str_nat i) (extra_closers c (length c)) @
          concat (map (\<lambda>pos.
            [''Unclosed opening brace at index '' @ str_nat pos,
             ''  Line: '' @ str_nat (line_no c pos),
             ''  Context: '' @ slice c pos (pos + 50) @ ''...''])
            (unclosed c (length c)))) \<and>
   sorted_wrt (<) (extra_closers c (length c)) \<and>
   sorted_wrt (<) (unclosed c (length c))"
proof (intro conjI allI impI)
  fix n assume "n \<le> length c"
  from scan_upto_printed[OF this]
  show "\<exists>s. scan_upto c n = Inr s \<and>
       printed s = map (\<lambda>i. ''Extra closing brace at index '' @ str_nat i) (extra_closers c n)"
    by (simp add: extra_line_def[abs_def])
next
  show "check_content c =
     Inr (map (\<lambda>i. ''Extra closing brace at index '' @ str_nat i) (extra_closers c (length c)) @
          concat (map (\<lambda>pos.
            [''Unclosed opening brace at index '' @ str_nat pos,
             ''  Line: '' @ str_nat (line_no c pos),
             ''  Context: '' @ slice c pos (pos + 50) @ ''...''])
            (unclosed c (length c))))"
    by (simp only: check_content_eq extra_line_def[abs_def] unclosed_block_def[abs_def])
next
  show "sorted_wrt (<) (extra_closers c (length c))" by (rule sorted_extra_closers)
next
  show "sorted_wrt (<) (unclosed c (length c))" by (rule sorted_unclosed)
qed

theorem diagnostics_order_witness:
  "check_content ''}{x}}{{}'' =
     Inr [''Extra closing brace at index 0'', ''Extra closing brace at index 4'',
          ''Unclosed opening brace at index 5'', ''  Line: 1'', ''  Context: {{}...''] \<and>
   (\<exists>s. scan_upto ''}{x}}{{}'' 5 = Inr s \<and>
        printed s = [''Extra closing brace at index 0'', ''Extra closing brace at index 4''])"
proof -
  let ?c = "''}{x}}{{}''"
  have rhs: "map (\<lambda>i. ''Extra closing brace at index '' @ str_nat i) (extra_closers ?c (length ?c)) @
          concat (map (\<lambda>pos.
            [''Unclosed opening brace at index '' @ str_nat pos,
             ''  Line: '' @ str_nat (line_no ?c pos),
             ''  Context: '' @ slice ?c pos (pos + 50) @ ''...''])
            (unclosed ?c (length ?c))) =
     [''Extra closing brace at index 0'', ''Extra closing brace at index 4'',
          ''Unclosed opening brace at index 5'', ''  Line: 1'', ''  Context: {{}...'']"
    by code_simp
  have mid: "map (\<lambda>i. ''Extra closing brace at index '' @ str_nat i) (extra_closers ?c 5) =
     [''Extra closing brace at index 0'', ''Extra closing brace at index 4'']"
    by code_simp
  have le: "(5::nat) \<le> length ?c" by simp
  note inst = diagnostics_order[of ?c]
  have 1: "check_content ?c =
     Inr [''Extra closing brace at index 0'', ''Extra closing brace at index 4'',
          ''Unclosed opening brace at index 5'', ''  Line: 1'', ''  Context: {{}...'']"
    using inst[THEN conjunct2, THEN conjunct1] by (simp only: rhs)
  have 2: "\<exists>s. scan_upto ?c 5 = Inr s \<and>
        printed s = [''Extra closing brace at index 0'', ''Extra closing brace at index 4'']"
    using inst[THEN conjunct1, rule_format, OF le] by (simp only: mid)
  show ?thesis using 1 2 by blast
qed

subsection \<open>Failure\<close>

lemma write_lines_Nil [simp]: "write_lines stdout out [] = Inr out"
  by (simp add: write_lines_def)

lemma write_lines_Cons:
  "write_lines stdout out (l # ls) =
     (case stdout l of Some e \<Rightarrow> Inl (e, out) | None \<Rightarrow> write_lines stdout (out @ [l]) ls)"
  by (simp add: write_lines_def print_on_def print_def split: option.splits)

lemma write_lines_append:
  "write_lines stdout out (xs @ ys) =
     (case write_lines stdout out xs of Inl e \<Rightarrow> Inl e | Inr out' \<Rightarrow> write_lines stdout out' ys)"
  unfolding write_lines_def by (rule for_each_append)

lemma write_lines_Inr: "write_lines stdout out ls = Inr out' \<Longrightarrow> out' = out @ ls"
proof (induction ls arbitrary: out)
  case Nil
  then show ?case by simp
next
  case (Cons l ls)
  from Cons.prems have "write_lines stdout (out @ [l]) ls = Inr out'"
    by (cases "stdout l") (simp_all add: write_lines_Cons)
  from Cons.IH[OF this] show ?case by simp
qed

lemma write_lines_accepted:
  "\<forall>l\<in>set ls. stdout l = None \<Longrightarrow> write_lines stdout out ls = Inr (out @ ls)"
  by (induction ls arbitrary: out) (simp_all add: write_lines_Cons)

lemma write_lines_refused:
  "\<exists>l\<in>set ls. stdout l \<noteq> None \<Longrightarrow>
   \<exists>k<length ls. \<exists>e. stdout (ls ! k) = Some e \<and> (\<forall>l\<in>set (take k ls). stdout l = None) \<and>
      write_lines stdout out ls = Inl (e, out @ take k ls)"
proof (induction ls arbitrary: out)
  case Nil
  then show ?case by simp
next
  case (Cons l ls)
  show ?case
  proof (cases "stdout l")
    case (Some e)
    then have "stdout ((l # ls) ! 0) = Some e \<and> (\<forall>l'\<in>set (take 0 (l # ls)). stdout l' = None) \<and>
      write_lines stdout out (l # ls) = Inl (e, out @ take 0 (l # ls))"
      by (simp add: write_lines_Cons)
    then show ?thesis by (intro exI[of _ 0]) auto
  next
    case None
    with Cons.prems have "\<exists>l\<in>set ls. stdout l \<noteq> None" by auto
    from Cons.IH[OF this, of "out @ [l]"] obtain k e where k: "k < length ls"
      "stdout (ls ! k) = Some e" "\<forall>l\<in>set (take k ls). stdout l = None"
      "write_lines stdout (out @ [l]) ls = Inl (e, (out @ [l]) @ take k ls)"
      by blast
    with None have "Suc k < length (l # ls) \<and> stdout ((l # ls) ! Suc k) = Some e \<and>
      (\<forall>l'\<in>set (take (Suc k) (l # ls)). stdout l' = None) \<and>
      write_lines stdout out (l # ls) = Inl (e, out @ take (Suc k) (l # ls))"
      by (simp add: write_lines_Cons)
    then show ?thesis by blast
  qed
qed

text \<open>The run on any standard output against the run on one that accepts every line.\<close>

lemma scan_step_on_eq:
  assumes "scan_step s p = Inr s'"
  shows "\<exists>ls. printed s' = printed s @ ls \<and>
           scan_step_on stdout s p =
             (case write_lines stdout (printed s) ls of Inl e \<Rightarrow> Inl e | Inr out \<Rightarrow> Inr s')"
proof (cases p)
  case (Pair i ch)
  show ?thesis
  proof (cases "ch = CHR ''}'' \<and> stack s = []")
    case True
    with Pair assms have s': "s' = s\<lparr>printed := printed s @ [extra_line i]\<rparr>"
      by (simp add: scan_step_extra)
    have "scan_step_on stdout s p =
          (case write_lines stdout (printed s) [extra_line i] of
             Inl e \<Rightarrow> Inl e | Inr out \<Rightarrow> Inr s')"
      using True Pair s'
      by (simp add: scan_step_on_def print_on_def print_def extra_line_def write_lines_Cons
          split: option.splits)
    with s' show ?thesis by (intro exI[of _ "[extra_line i]"]) simp
  next
    case False
    then have "scan_step_on stdout s p = scan_step s p"
      using Pair by (auto simp: scan_step_on_def scan_step_def)
    moreover have "printed s' = printed s"
      using False Pair assms by (auto simp: scan_step_def pop_nonempty split: if_splits)
    ultimately show ?thesis using assms by (intro exI[of _ "[]"]) simp
  qed
qed

lemma scan_loop_on_eq:
  assumes "for_each scan_step s ps = Inr s'"
  shows "\<exists>ls. printed s' = printed s @ ls \<and>
           for_each (scan_step_on stdout) s ps =
             (case write_lines stdout (printed s) ls of Inl e \<Rightarrow> Inl e | Inr out \<Rightarrow> Inr s')"
  using assms
proof (induction ps arbitrary: s)
  case Nil
  then show ?case by (intro exI[of _ "[]"]) simp
next
  case (Cons p ps)
  obtain s1 where s1: "scan_step s p = Inr s1" using scan_step_total by blast
  with Cons.prems have rest: "for_each scan_step s1 ps = Inr s'" by simp
  from scan_step_on_eq[OF s1, of stdout] obtain ls1 where ls1: "printed s1 = printed s @ ls1"
    "scan_step_on stdout s p =
       (case write_lines stdout (printed s) ls1 of Inl e \<Rightarrow> Inl e | Inr out \<Rightarrow> Inr s1)"
    by blast
  from Cons.IH[OF rest] obtain ls2 where ls2: "printed s' = printed s1 @ ls2"
    "for_each (scan_step_on stdout) s1 ps =
       (case write_lines stdout (printed s1) ls2 of Inl e \<Rightarrow> Inl e | Inr out \<Rightarrow> Inr s')"
    by blast
  have "for_each (scan_step_on stdout) s (p # ps) =
        (case write_lines stdout (printed s) (ls1 @ ls2) of Inl e \<Rightarrow> Inl e | Inr out \<Rightarrow> Inr s')"
  proof (cases "write_lines stdout (printed s) ls1")
    case (Inl e)
    with ls1 show ?thesis by (simp add: write_lines_append)
  next
    case (Inr out)
    then have "out = printed s1" using write_lines_Inr ls1(1) by fastforce
    with Inr ls1 ls2 show ?thesis by (simp add: write_lines_append)
  qed
  with ls1 ls2 show ?case by (intro exI[of _ "ls1 @ ls2"]) simp
qed

lemma report_step_on_eq:
  "report_step_on stdout c out pos = write_lines stdout out (unclosed_block c pos)"
  by (simp add: report_step_on_def unclosed_block_def write_lines_Cons print_on_def print_def
      split: option.splits)

lemma report_loop_on_eq:
  "for_each (report_step_on stdout c) out st =
     write_lines stdout out (concat (map (unclosed_block c) st))"
  by (induction st arbitrary: out)
    (simp_all add: report_step_on_eq write_lines_append split: sum.splits)

lemma check_content_diagnostics: "check_content c = Inr (diagnostics c)"
  by (simp add: check_content_eq diagnostics_def)

lemma check_content_on_eq: "check_content_on stdout c = write_lines stdout [] (diagnostics c)"
proof -
  let ?s = "\<lparr>stack = unclosed c (length c), printed = map extra_line (extra_closers c (length c))\<rparr>"
  have "for_each scan_step scan_init (enumerate 0 c) = Inr ?s"
    using scan_result[of c] by (simp add: scan_def)
  from scan_loop_on_eq[OF this, of stdout] 
  have scan: "scan_on stdout c =
      (case write_lines stdout [] (map extra_line (extra_closers c (length c))) of
         Inl e \<Rightarrow> Inl e | Inr out \<Rightarrow> Inr ?s)"
    by (simp add: scan_on_def scan_init_def)
  show ?thesis
  proof (cases "write_lines stdout [] (map extra_line (extra_closers c (length c)))")
    case (Inl e)
    with scan show ?thesis
      by (simp add: check_content_on_def diagnostics_def write_lines_append)
  next
    case (Inr out)
    then have "out = map extra_line (extra_closers c (length c))"
      using write_lines_Inr by fastforce
    with Inr scan show ?thesis
      by (simp add: check_content_on_def diagnostics_def write_lines_append report_loop_on_eq)
  qed
qed

lemma check_braces_on_accepting:
  "check_braces_on (\<lambda>line. None) read_file filename = check_braces read_file filename"
  by (cases "read_file filename")
    (simp_all add: check_braces_on_def check_braces_def check_content_on_eq
      check_content_diagnostics write_lines_accepted)

text \<open>
  C8. It is not the case that the run fails only when the file cannot be opened or
  read: on a standard output that encodes ASCII only, the text of an opener followed by
  the character E9 is read without failure, and the run fails in the report, after two
  lines, at the line that echoes the text.
\<close>

theorem fails_only_on_file_access_counterexample:
  "\<not> (isl (check_braces_on ascii_stdout (one_file ''lib.rs'' [CHR ''{'', CHR 0xE9]) ''lib.rs'')
        \<longleftrightarrow> isl (one_file ''lib.rs'' [CHR ''{'', CHR 0xE9] ''lib.rs'')) \<and>
   check_braces_on ascii_stdout (one_file ''lib.rs'' [CHR ''{'', CHR 0xE9]) ''lib.rs'' =
     Inl (UnicodeEncodeError, [''Unclosed opening brace at index 0'', ''  Line: 1''])"
  by code_simp

text \<open>
  C8, amended. A failure of opening or reading the file ends the run with that
  exception and nothing printed. Once the content has been read, the scan and the
  report fail only where standard output refuses a line: when it accepts every line of
  the report the run does not fail and prints the whole report; otherwise the run ends
  with the exception of the first refused line, after the lines before it. So the run
  fails exactly when the file access fails or a line of the report is refused, and on a
  standard output that accepts every line exactly when the file access fails.
\<close>

theorem fails_on_file_access_or_refused_line:
  "(\<forall>e. read_file filename = Inl e \<longrightarrow> check_braces_on stdout read_file filename = Inl (e, [])) \<and>
   (\<forall>content. read_file filename = Inr content \<longrightarrow>
      (if \<forall>l\<in>set (diagnostics content). stdout l = None
       then check_braces_on stdout read_file filename = Inr (diagnostics content)
       else \<exists>k<length (diagnostics content). \<exists>e.
              stdout (diagnostics content ! k) = Some e \<and>
              (\<forall>l\<in>set (take k (diagnostics content)). stdout l = None) \<and>
              check_braces_on stdout read_file filename = Inl (e, take k (diagnostics content)))) \<and>
   (isl (check_braces_on stdout read_file filename) \<longleftrightarrow>
      isl (read_file filename) \<or>
      (\<exists>content. read_file filename = Inr content \<and>
         (\<exists>l\<in>set (diagnostics content). stdout l \<noteq> None))) \<and>
   ((\<forall>l. stdout l = None) \<longrightarrow>
      (isl (check_braces_on stdout read_file filename) \<longleftrightarrow> isl (read_file filename)))"
proof -
  have access: "check_braces_on stdout read_file filename = Inl (e, [])"
    if "read_file filename = Inl e" for e
    using that by (simp add: check_braces_on_def)
  have run: "check_braces_on stdout read_file filename = write_lines stdout [] (diagnostics content)"
    if "read_file filename = Inr content" for content
    using that by (simp add: check_braces_on_def check_content_on_eq)
  have ok: "check_braces_on stdout read_file filename = Inr (diagnostics content)"
    if "read_file filename = Inr content" "\<forall>l\<in>set (diagnostics content). stdout l = None"
    for content
    using run[OF that(1)] write_lines_accepted[OF that(2), of "[]"] by simp
  have refused: "\<exists>k<length (diagnostics content). \<exists>e.
              stdout (diagnostics content ! k) = Some e \<and>
              (\<forall>l\<in>set (take k (diagnostics content)). stdout l = None) \<and>
              check_braces_on stdout read_file filename = Inl (e, take k (diagnostics content))"
    if "read_file filename = Inr content" "\<not> (\<forall>l\<in>set (diagnostics content). stdout l = None)"
    for content
  proof -
    from that(2) have "\<exists>l\<in>set (diagnostics content). stdout l \<noteq> None" by blast
    from write_lines_refused[OF this, of "[]"] show ?thesis
      by (simp add: run[OF that(1)])
  qed
  have iff: "isl (check_braces_on stdout read_file filename) \<longleftrightarrow>
      isl (read_file filename) \<or>
      (\<exists>content. read_file filename = Inr content \<and>
         (\<exists>l\<in>set (diagnostics content). stdout l \<noteq> None))"
  proof (cases "read_file filename")
    case (Inl e)
    with access[OF Inl] show ?thesis by simp
  next
    case (Inr content)
    show ?thesis
    proof (cases "\<forall>l\<in>set (diagnostics content). stdout l = None")
      case True
      with ok[OF Inr True] Inr show ?thesis by auto
    next
      case False
      from refused[OF Inr False] have "isl (check_braces_on stdout read_file filename)"
        by auto
      with False Inr show ?thesis by auto
    qed
  qed
  have accepting: "isl (check_braces_on stdout read_file filename) \<longleftrightarrow> isl (read_file filename)"
    if "\<forall>l. stdout l = None"
    using iff that by simp
  show ?thesis
    using access ok refused iff accepting by (intro conjI allI impI) (simp_all split: if_splits)
qed

theorem fails_on_file_access_or_refused_line_witness:
  "check_braces_on ascii_stdout (one_file ''lib.rs'' ''}{'') ''missing.rs'' = Inl (OSError, []) \<and>
   check_braces_on ascii_stdout (one_file ''lib.rs'' ''}{'') ''lib.rs'' =
     Inr [''Extra closing brace at index 0'', ''Unclosed opening brace at index 1'',
          ''  Line: 1'', ''  Context: {...''] \<and>
   isl (check_braces_on ascii_stdout (one_file ''lib.rs'' [CHR ''{'', CHR 0xE9]) ''lib.rs'')"
proof -
  have a: "one_file ''lib.rs'' ''}{'' ''missing.rs'' = Inl OSError"
    by (simp add: one_file_def)
  have b: "one_file ''lib.rs'' ''}{'' ''lib.rs'' = Inr ''}{''"
    by (simp add: one_file_def)
  have acc: "\<forall>l\<in>set (diagnostics ''}{''). ascii_stdout l = None"
    by code_simp
  have d: "diagnostics ''}{'' =
     [''Extra closing brace at index 0'', ''Unclosed opening brace at index 1'',
      ''  Line: 1'', ''  Context: {...'']"
    by code_simp
  have c: "one_file ''lib.rs'' [CHR ''{'', CHR 0xE9] ''lib.rs'' = Inr [CHR ''{'', CHR 0xE9]"
    by (simp add: one_file_def)
  have ref: "\<exists>l\<in>set (diagnostics [CHR ''{'', CHR 0xE9]). ascii_stdout l \<noteq> None"
    by code_simp
  note i1 = fails_on_file_access_or_refused_line[of "one_file ''lib.rs'' ''}{''" "''missing.rs''" ascii_stdout]
  note i2 = fails_on_file_access_or_refused_line[of "one_file ''lib.rs'' ''}{''" "''lib.rs''" ascii_stdout]
  note i3 = fails_on_file_access_or_refused_line[of "one_file ''lib.rs'' [CHR ''{'', CHR 0xE9]" "''lib.rs''" ascii_stdout]
  have 1: "check_braces_on ascii_stdout (one_file ''lib.rs'' ''}{'') ''missing.rs'' = Inl (OSError, [])"
    using i1[THEN conjunct1, rule_format, OF a] .
  have 2: "check_braces_on ascii_stdout (one_file ''lib.rs'' ''}{'') ''lib.rs'' =
     Inr [''Extra closing brace at index 0'', ''Unclosed opening brace at index 1'',
          ''  Line: 1'', ''  Context: {...'']"
    using i2[THEN conjunct2, THEN conjunct1, rule_format, OF b] acc by (simp only: if_True d)
  have 3: "isl (check_braces_on ascii_stdout (one_file ''lib.rs'' [CHR ''{'', CHR 0xE9]) ''lib.rs'')"
    using i3[THEN conjunct2, THEN conjunct2, THEN conjunct1] c ref by blast
  show ?thesis using 1 2 3 by blast
qed

subsection \<open>Determinism\<close>

text \<open>
  C9. Two runs that read the same content end the same way and print the same lines,
  whatever the paths and whatever else the two file systems hold.
\<close>

theorem same_content_same_output:
  "read_file filename = Inr content \<Longrightarrow> read_file' filename' = Inr content \<Longrightarrow>
   check_braces read_file filename = check_braces read_file' filename'"
  by (simp add: check_braces_def)

theorem same_content_same_output_witness:
  "check_braces (\<lambda>path. if path = ''a.rs'' then Inr ''{}}'' else Inl OSError) ''a.rs'' =
   check_braces (\<lambda>path. Inr ''{}}'') ''b.rs''"
  using same_content_same_output[of "\<lambda>path. if path = ''a.rs'' then Inr ''{}}'' else Inl OSError"
      "''a.rs''" "''{}}''" "\<lambda>path. Inr ''{}}''" "''b.rs''"]
  by simp

subsection \<open>The stack during the scan\<close>

text \<open>
  C7. After the character at any offset \<open>i\<close> has been processed, the scan has not
  failed and its stack is the ascending list of the offsets up to \<open>i\<close> that hold an
  opener matched by no closer up to \<open>i\<close>; the stack left by the whole pass is the list
  of the openers of the text that no closer matches.
\<close>

theorem stack_holds_unmatched_openers:
  "(\<forall>i<length c. \<exists>s. scan_upto c (Suc i) = Inr s \<and> stack s = unclosed c (Suc i) \<and>
       sorted_wrt (<) (stack s)) \<and>
   (\<exists>s. scan c = Inr s \<and> stack s = unclosed c (length c))"
proof (intro conjI allI impI)
  fix i assume "i < length c"
  then have "Suc i \<le> length c" by simp
  from scan_upto_stack[OF this] obtain s
    where s: "scan_upto c (Suc i) = Inr s" "stack s = unclosed c (Suc i)" by blast
  have "sorted_wrt (<) (unclosed c (Suc i))"
    unfolding unclosed_def by (rule sorted_wrt_filter) (rule sorted_wrt_upt)
  with s show "\<exists>s. scan_upto c (Suc i) = Inr s \<and> stack s = unclosed c (Suc i) \<and>
       sorted_wrt (<) (stack s)" by simp
next
  show "\<exists>s. scan c = Inr s \<and> stack s = unclosed c (length c)"
    using scan_upto_stack[of "length c" c] by (simp add: scan_upto_length)
qed

theorem stack_holds_unmatched_openers_witness:
  "(\<exists>s. scan_upto ''{{}}{x'' 3 = Inr s \<and> stack s = [0]) \<and>
   (\<exists>s. scan ''{{}}{x'' = Inr s \<and> stack s = [4])"
proof -
  have u: "unclosed ''{{}}{x'' (Suc 2) = [0]" "unclosed ''{{}}{x'' (length ''{{}}{x'') = [4]"
    by code_simp+
  have "(2::nat) < length ''{{}}{x''" by simp
  with stack_holds_unmatched_openers[of "''{{}}{x''"] u show ?thesis
    by (metis eval_nat_numeral(3))
qed

subsection \<open>Counting the diagnostics\<close>

lemma extra_diagnostics_append:
  "extra_diagnostics (xs @ ys) = extra_diagnostics xs + extra_diagnostics ys"
  by (simp add: extra_diagnostics_def)

lemma unclosed_diagnostics_append:
  "unclosed_diagnostics (xs @ ys) = unclosed_diagnostics xs + unclosed_diagnostics ys"
  by (simp add: unclosed_diagnostics_def)

lemma diagnostics_extra_lines:
  "extra_diagnostics (map extra_line es) = length es"
  "unclosed_diagnostics (map extra_line es) = 0"
  by (induction es) (simp_all add: extra_diagnostics_def unclosed_diagnostics_def extra_line_def)

lemma diagnostics_unclosed_blocks:
  "extra_diagnostics (concat (map (unclosed_block c) us)) = 0"
  "unclosed_diagnostics (concat (map (unclosed_block c) us)) = length us"
  by (induction us) (simp_all add: extra_diagnostics_def unclosed_diagnostics_def unclosed_block_def)

text \<open>
  C10. The number of extra-closing-brace lines of a run minus the number of its
  unclosed-opening-brace blocks is the number of closers of the text minus the number
  of its openers; a text with different numbers of openers and closers gets some
  output.
\<close>

theorem diagnostics_balance:
  "\<exists>out. check_content c = Inr out \<and>
     int (extra_diagnostics out) - int (unclosed_diagnostics out) = int (closes c) - int (opens c) \<and>
     (closes c \<noteq> opens c \<longrightarrow> out \<noteq> [])"
proof -
  let ?out = "map extra_line (extra_closers c (length c)) @
              concat (map (unclosed_block c) (unclosed c (length c)))"
  have e: "extra_diagnostics ?out = length (extra_closers c (length c))"
    by (simp add: extra_diagnostics_append diagnostics_extra_lines diagnostics_unclosed_blocks)
  have u: "unclosed_diagnostics ?out = length (unclosed c (length c))"
    by (simp add: unclosed_diagnostics_append diagnostics_extra_lines diagnostics_unclosed_blocks)
  have bal: "int (extra_diagnostics ?out) - int (unclosed_diagnostics ?out) =
             int (closes c) - int (opens c)"
    using brace_counts[of c] unfolding e u by linarith
  have "?out \<noteq> []" if "closes c \<noteq> opens c"
  proof
    assume "?out = []"
    then have "extra_diagnostics ?out = 0" "unclosed_diagnostics ?out = 0"
      by (simp_all only: extra_diagnostics_def unclosed_diagnostics_def filter.simps list.size)
    with bal that show False by simp
  qed
  with bal show ?thesis by (simp only: check_content_eq) blast
qed

theorem diagnostics_balance_witness:
  "closes ''}}{'' \<noteq> opens ''}}{'' \<and>
   (\<exists>out. check_content ''}}{'' = Inr out \<and>
      int (extra_diagnostics out) - int (unclosed_diagnostics out) = 1 \<and> out \<noteq> [])"
proof -
  have c: "closes ''}}{'' = 2" "opens ''}}{'' = 1" by code_simp+
  from diagnostics_balance[of "''}}{''"] obtain out where
    "check_content ''}}{'' = Inr out"
    "int (extra_diagnostics out) - int (unclosed_diagnostics out) =
       int (closes ''}}{'') - int (opens ''}}{'')"
    "closes ''}}{'' \<noteq> opens ''}}{'' \<longrightarrow> out \<noteq> []"
    by blast
  then show ?thesis by (auto simp: c)
qed

end
